theory Spec2Isabelle
  imports Complex_Main "HOL-Library.Multiset" "HOL-Library.Sublist" "HOL-Library.Monad_Syntax"
begin

section \<open>LRC timestamp index and playback synchronisation of lyricsync-pro\<close>

text \<open>
  The development embeds the methods \<open>rebuild_lrc_index\<close>, \<open>update_lrc_highlight\<close>,
  \<open>_apply_line_highlight\<close>, \<open>_scroll_both_to_line\<close>, \<open>_scroll_editor_view_to_line\<close>,
  \<open>_sync_scroll_from\<close> and \<open>load_audio\<close> of \<open>MainWindow\<close> in
  \<open>src/lyricsync_pro/app.py\<close>.

  Conventions of the embedding.
  \<^item> A Python \<open>str\<close> is a \<open>string\<close>; the characters are those of code point below 256.
    On these \<open>\d\<close> matches exactly \<open>0\<close> .. \<open>9\<close>.
  \<^item> A Python \<open>float\<close> is the \<open>real\<close> it denotes. Every offset the program computes is
    \<open>n + k / 10 ^ d\<close> with \<open>n \<le> 6039\<close>, \<open>k < 1000\<close> and \<open>d \<le> 3\<close>, so rounding to a double is
    monotone and injective on these values and the comparisons of the program agree with
    the comparisons of the reals. Where a claim is about the size of the rounding error,
    the rounding is a parameter (\<open>tag_seconds_rounded\<close>).
  \<^item> A line number is an \<open>int\<close>, as \<open>_current_line_no\<close> starts at \<open>-1\<close>.
\<close>

subsection \<open>\<open>str.splitlines\<close>\<close>

text \<open>
  The line boundaries of \<open>str.splitlines\<close> below code point 256: LF, VT, FF, CR, FS, GS,
  RS and NEL; CR LF is one boundary. No empty last line is produced for a text ending in
  a boundary.
\<close>

definition is_linebreak :: "char \<Rightarrow> bool" where
  "is_linebreak c = (c \<in> set [CHR 0x0A, CHR 0x0B, CHR 0x0C, CHR 0x0D, CHR 0x1C, CHR 0x1D,
       CHR 0x1E, CHR 0x85])"

fun splitlines_from :: "string \<Rightarrow> string \<Rightarrow> string list" where
  "splitlines_from cur [] = (if cur = [] then [] else [cur])"
| "splitlines_from cur [c] =
     (if is_linebreak c then [cur] else [cur @ [c]])"
| "splitlines_from cur (c # d # cs) =
     (if c = CHR 0x0D \<and> d = CHR 0x0A then cur # splitlines_from [] cs
      else if is_linebreak c then cur # splitlines_from [] (d # cs)
      else splitlines_from (cur @ [c]) (d # cs))"

definition splitlines :: "string \<Rightarrow> string list" where
  "splitlines text = splitlines_from [] text"

subsection \<open>The timestamp pattern\<close>

text \<open>
  The pattern is \<^verbatim>\<open>\[(\d{1,2}):(\d{2})(?:\.(\d{1,3}))?\]\<close>. The matcher below tries the
  alternatives in the order of the backtracking engine: a greedy repetition tries its
  longest count first, a greedy optional group is tried present before absent.
\<close>

definition is_digit :: "char \<Rightarrow> bool" where
  "is_digit c = (c \<in> set ''0123456789'')"

definition lit :: "char \<Rightarrow> string \<Rightarrow> string option" where
  "lit c s = (case s of [] \<Rightarrow> None | x # r \<Rightarrow> if x = c then Some r else None)"

definition digits :: "nat \<Rightarrow> string \<Rightarrow> (string \<times> string) option" where
  "digits n s = (if n \<le> length s \<and> list_all is_digit (take n s)
                 then Some (take n s, drop n s) else None)"

fun orelse :: "'a option \<Rightarrow> 'a option \<Rightarrow> 'a option" where
  "orelse (Some x) _ = Some x"
| "orelse None y = y"

text \<open>A match: groups 1 and 2, group 3 when it took part, and the text after the match.\<close>

type_synonym groups = "string \<times> string \<times> string option"

definition close_bracket :: "string \<Rightarrow> string \<Rightarrow> string option \<Rightarrow> string \<Rightarrow> (groups \<times> string) option" where
  "close_bracket mm ss g3 s = do { r \<leftarrow> lit CHR '']'' s; Some ((mm, ss, g3), r) }"

definition with_fraction :: "nat \<Rightarrow> string \<Rightarrow> string \<Rightarrow> string \<Rightarrow> (groups \<times> string) option" where
  "with_fraction n mm ss s =
     do { r \<leftarrow> lit CHR ''.'' s; (f, r') \<leftarrow> digits n r; close_bracket mm ss (Some f) r' }"

definition after_seconds :: "string \<Rightarrow> string \<Rightarrow> string \<Rightarrow> (groups \<times> string) option" where
  "after_seconds mm ss s =
     orelse (with_fraction 3 mm ss s)
       (orelse (with_fraction 2 mm ss s)
         (orelse (with_fraction 1 mm ss s)
           (close_bracket mm ss None s)))"

definition with_minutes :: "nat \<Rightarrow> string \<Rightarrow> (groups \<times> string) option" where
  "with_minutes n s =
     do { (mm, r) \<leftarrow> digits n s; r1 \<leftarrow> lit CHR '':'' r; (ss, r2) \<leftarrow> digits 2 r1;
          after_seconds mm ss r2 }"

definition match_at :: "string \<Rightarrow> (groups \<times> string) option" where
  "match_at s = do { r \<leftarrow> lit CHR ''['' s; orelse (with_minutes 2 r) (with_minutes 1 r) }"

text \<open>
  \<open>re.finditer\<close> scans the start positions from left to right; the loop body ends in
  \<open>break\<close>, so only its first match is used.
\<close>

fun first_match :: "string \<Rightarrow> groups option" where
  "first_match [] = None"
| "first_match (c # s) =
     (case match_at (c # s) of Some (g, _) \<Rightarrow> Some g | None \<Rightarrow> first_match s)"

subsection \<open>From a match to seconds\<close>

definition digit_value :: "char \<Rightarrow> nat" where
  "digit_value c = of_char c - 48"

definition py_int :: "string \<Rightarrow> nat" where
  "py_int s = foldl (\<lambda>a c. 10 * a + digit_value c) 0 s"

definition frac_sec :: "string option \<Rightarrow> real" where
  "frac_sec g3 =
     (let frac = (case g3 of None \<Rightarrow> ''0'' | Some f \<Rightarrow> if f = [] then ''0'' else f)
      in if length frac = 1 then real (py_int frac) / 10
         else if length frac = 2 then real (py_int frac) / 100
         else real (py_int (take 3 frac)) / 1000)"

definition tag_seconds :: "groups \<Rightarrow> real" where
  "tag_seconds g = (case g of (mm, ss, g3) \<Rightarrow> real (py_int mm * 60 + py_int ss) + frac_sec g3)"

text \<open>
  The same computation with the two floating-point operations, the division and the
  final addition, rounded by \<open>fl\<close>; the integer \<open>mm * 60 + ss\<close> is exact. \<open>tag_seconds\<close> is
  the case of no rounding.
\<close>

definition frac_sec_rounded :: "(real \<Rightarrow> real) \<Rightarrow> string option \<Rightarrow> real" where
  "frac_sec_rounded fl g3 =
     (let frac = (case g3 of None \<Rightarrow> ''0'' | Some f \<Rightarrow> if f = [] then ''0'' else f)
      in if length frac = 1 then fl (real (py_int frac) / 10)
         else if length frac = 2 then fl (real (py_int frac) / 100)
         else fl (real (py_int (take 3 frac)) / 1000))"

definition tag_seconds_rounded :: "(real \<Rightarrow> real) \<Rightarrow> groups \<Rightarrow> real" where
  "tag_seconds_rounded fl g = (case g of (mm, ss, g3) \<Rightarrow>
     fl (real (py_int mm * 60 + py_int ss) + frac_sec_rounded fl g3))"

subsection \<open>The index and its rebuild\<close>

type_synonym lrc_index = "(real \<times> int) list"

text \<open>The body of the loop over \<open>enumerate(text.splitlines())\<close>: at most one append.\<close>

definition index_line :: "lrc_index \<Rightarrow> nat \<times> string \<Rightarrow> lrc_index" where
  "index_line ix p =
     (case first_match (snd p) of None \<Rightarrow> ix
      | Some g \<Rightarrow> ix @ [(tag_seconds g, int (fst p))])"

definition index_loop :: "string \<Rightarrow> lrc_index" where
  "index_loop text = foldl index_line [] (enumerate 0 (splitlines text))"

text \<open>
  \<open>list.sort(key=...)\<close> is a stable sort by the key; \<open>sort_key\<close> is the stable sort of
  the library, and a stable sort by a key has one result only.
\<close>

definition build_index :: "string \<Rightarrow> lrc_index" where
  "build_index text = sort_key fst (index_loop text)"

text \<open>
  The successive values of the attribute \<open>_lrc_index\<close> while \<open>rebuild_lrc_index\<close> runs:
  the fresh empty list assigned first, the list after each iteration of the loop (the
  appends are made to the list the attribute holds), and the list after the sort in
  place.
\<close>

fun loop_states :: "lrc_index \<Rightarrow> (nat \<times> string) list \<Rightarrow> lrc_index list" where
  "loop_states ix [] = []"
| "loop_states ix (p # ps) = index_line ix p # loop_states (index_line ix p) ps"

definition rebuild_states :: "string \<Rightarrow> lrc_index list" where
  "rebuild_states text =
     [] # loop_states [] (enumerate 0 (splitlines text)) @ [sort_key fst (index_loop text)]"

subsection \<open>Resolving the active line\<close>

text \<open>
  The loop of \<open>update_lrc_highlight\<close>: \<open>j\<close> is the position of the entry at the head,
  \<open>idx\<close> the variable of that name; the loop ends at the first entry whose time exceeds
  \<open>current_sec\<close>.
\<close>

fun scan_index :: "lrc_index \<Rightarrow> real \<Rightarrow> nat \<Rightarrow> nat \<Rightarrow> nat" where
  "scan_index [] current_sec j idx = idx"
| "scan_index (e # es) current_sec j idx =
     (if fst e \<le> current_sec then scan_index es current_sec (Suc j) j else idx)"

text \<open>
  \<open>resolve_line\<close> is the part of \<open>update_lrc_highlight\<close> up to \<open>line_no\<close>: \<open>None\<close> is the
  early return on an empty index. The read \<open>_lrc_index[idx]\<close> is in range
  (lemma \<open>scan_index_in_range\<close>), so no \<open>IndexError\<close> branch is needed.
\<close>

definition resolve_line :: "lrc_index \<Rightarrow> real \<Rightarrow> int option" where
  "resolve_line ix current_sec =
     (if ix = [] then None else Some (snd (ix ! scan_index ix current_sec 0 0)))"

subsection \<open>The window state and the view layer\<close>

datatype view = Original | Editable

datatype align = Top | Center | Bottom

datatype py_exn = Exception | BaseException

text \<open>What the program does to the two text views: a scroll bar set to a new value, a
  line given the highlight selection.\<close>

datatype effect = Scrolled view int | Highlighted view int

record main_window =
  editor_text :: string
  lrc_index :: lrc_index
  current_line_no :: int
  sync_lock :: bool
  scroll_value :: "view \<Rightarrow> int"
  effects :: "effect list"

text \<open>The runtime state set up by \<open>_build_ui\<close>.\<close>

definition init_window :: main_window where
  "init_window = \<lparr> editor_text = [], lrc_index = [], current_line_no = - 1,
     sync_lock = False, scroll_value = (\<lambda>_. 0), effects = [] \<rparr>"

text \<open>
  The Qt objects are not part of the repository; what the methods ask of them is a
  parameter: whether \<open>findBlockByNumber(line_no)\<close> is valid, the clamped value computed
  for \<open>setValue\<close> (or the exception raised on the way), the block number under the top of
  the viewport (or the exception raised on the way), and \<open>blockCount()\<close>.
\<close>

record qt_layer =
  find_block :: "main_window \<Rightarrow> view \<Rightarrow> int \<Rightarrow> bool"
  clamped_value :: "main_window \<Rightarrow> view \<Rightarrow> int \<Rightarrow> align \<Rightarrow> py_exn + int"
  top_block_number :: "main_window \<Rightarrow> view \<Rightarrow> py_exn + int"
  block_count :: "main_window \<Rightarrow> view \<Rightarrow> int"

definition rebuild_lrc_index :: "main_window \<Rightarrow> main_window" where
  "rebuild_lrc_index s = s\<lparr>lrc_index := build_index (editor_text s)\<rparr>"

text \<open>
  \<open>setPlainText\<close> and \<open>clear\<close> on the editable view emit \<open>textChanged\<close>, which is
  connected to \<open>rebuild_lrc_index\<close>.
\<close>

definition set_plain_text :: "string \<Rightarrow> main_window \<Rightarrow> main_window" where
  "set_plain_text content s = rebuild_lrc_index (s\<lparr>editor_text := content\<rparr>)"

text \<open>\<open>load_audio\<close>: the argument is the content of the \<open>.lrc\<close> file beside the audio
  file, \<open>None\<close> when there is none.\<close>

definition load_audio :: "string option \<Rightarrow> main_window \<Rightarrow> main_window" where
  "load_audio lrc s =
     (case lrc of
        Some content \<Rightarrow> rebuild_lrc_index (set_plain_text content s)
      | None \<Rightarrow> (set_plain_text [] s)\<lparr>lrc_index := []\<rparr>)"

subsection \<open>Scroll coupling\<close>

definition other_view :: "view \<Rightarrow> view" where
  "other_view v = (case v of Original \<Rightarrow> Editable | Editable \<Rightarrow> Original)"

text \<open>\<open>except Exception: pass\<close> ends the method normally on an \<open>Exception\<close> and lets any
  other \<open>BaseException\<close> through.\<close>

definition except_Exception_pass :: "py_exn \<Rightarrow> main_window \<Rightarrow> ((py_exn + unit) \<times> main_window) option" where
  "except_Exception_pass e s =
     (case e of Exception \<Rightarrow> Some (Inr (), s) | BaseException \<Rightarrow> Some (Inl BaseException, s))"

text \<open>
  \<open>set_value\<close> is \<open>QScrollBar.setValue\<close>: nothing happens when the value is the current
  one; otherwise the value is stored and \<open>valueChanged\<close> runs the connected slot at once,
  which is \<open>_sync_scroll_from\<close> from the view of that scroll bar to the other view. What
  the slot returns or raises does not reach the emitter. Each run of a slot takes one unit
  of fuel; \<open>None\<close> is "out of fuel".
\<close>

fun set_value :: "nat \<Rightarrow> qt_layer \<Rightarrow> view \<Rightarrow> int \<Rightarrow> main_window \<Rightarrow> main_window option"
and scroll_editor_view_to_line ::
  "nat \<Rightarrow> qt_layer \<Rightarrow> view \<Rightarrow> int \<Rightarrow> align \<Rightarrow> main_window \<Rightarrow> ((py_exn + unit) \<times> main_window) option"
and sync_scroll_from ::
  "nat \<Rightarrow> qt_layer \<Rightarrow> view \<Rightarrow> view \<Rightarrow> main_window \<Rightarrow> ((py_exn + unit) \<times> main_window) option"
where
  "set_value 0 q ed v s = (if v = scroll_value s ed then Some s else None)"
| "set_value (Suc n) q ed v s =
     (if v = scroll_value s ed then Some s
      else (case sync_scroll_from n q ed (other_view ed)
                   (s\<lparr>scroll_value := (scroll_value s)(ed := v),
                      effects := effects s @ [Scrolled ed v]\<rparr>) of
              None \<Rightarrow> None
            | Some (_, s') \<Rightarrow> Some s'))"
| "scroll_editor_view_to_line n q ed line_no al s =
     (if \<not> find_block q s ed line_no then Some (Inr (), s)
      else (case clamped_value q s ed line_no al of
              Inl e \<Rightarrow> except_Exception_pass e s
            | Inr v \<Rightarrow> (case set_value n q ed v s of
                          None \<Rightarrow> None
                        | Some s' \<Rightarrow> Some (Inr (), s'))))"
| "sync_scroll_from n q src dst s =
     (if sync_lock s then Some (Inr (), s)
      else (case top_block_number q (s\<lparr>sync_lock := True\<rparr>) src of
              Inl e \<Rightarrow> Some (Inl e, s\<lparr>sync_lock := False\<rparr>)
            | Inr bn \<Rightarrow>
               (case scroll_editor_view_to_line n q dst
                       (max 0 (min bn (block_count q (s\<lparr>sync_lock := True\<rparr>) dst - 1))) Top
                       (s\<lparr>sync_lock := True\<rparr>) of
                  None \<Rightarrow> None
                | Some (r, s') \<Rightarrow> Some (r, s'\<lparr>sync_lock := False\<rparr>))))"

definition scroll_both_to_line ::
  "nat \<Rightarrow> qt_layer \<Rightarrow> int \<Rightarrow> main_window \<Rightarrow> ((py_exn + unit) \<times> main_window) option" where
  "scroll_both_to_line n q line_no s =
     (if sync_lock s then Some (Inr (), s)
      else (case scroll_editor_view_to_line n q Original line_no Center (s\<lparr>sync_lock := True\<rparr>) of
              None \<Rightarrow> None
            | Some (Inl e, s1) \<Rightarrow> Some (Inl e, s1\<lparr>sync_lock := False\<rparr>)
            | Some (Inr _, s1) \<Rightarrow>
               (case scroll_editor_view_to_line n q Editable line_no Center s1 of
                  None \<Rightarrow> None
                | Some (r, s2) \<Rightarrow> Some (r, s2\<lparr>sync_lock := False\<rparr>))))"

subsection \<open>Highlighting\<close>

definition apply_line_highlight :: "qt_layer \<Rightarrow> view \<Rightarrow> int \<Rightarrow> main_window \<Rightarrow> main_window" where
  "apply_line_highlight q ed line_no s =
     (if \<not> find_block q s ed line_no then s
      else s\<lparr>effects := effects s @ [Highlighted ed line_no]\<rparr>)"

definition update_lrc_highlight ::
  "nat \<Rightarrow> qt_layer \<Rightarrow> real \<Rightarrow> main_window \<Rightarrow> ((py_exn + unit) \<times> main_window) option" where
  "update_lrc_highlight n q current_sec s =
     (case resolve_line (lrc_index s) current_sec of
        None \<Rightarrow> Some (Inr (), s)
      | Some line_no \<Rightarrow>
          if line_no \<noteq> current_line_no s then
            (case scroll_both_to_line n q line_no (s\<lparr>current_line_no := line_no\<rparr>) of
               None \<Rightarrow> None
             | Some (Inl e, s1) \<Rightarrow> Some (Inl e, s1)
             | Some (Inr _, s1) \<Rightarrow>
                 Some (Inr (), apply_line_highlight q Original line_no
                                 (apply_line_highlight q Editable line_no s1)))
          else Some (Inr (), s))"

subsection \<open>The specification's notions\<close>

text \<open>
  The tag grammar as the specification words it: an opening bracket, minutes of one or
  two digits, a colon, seconds of two digits, optionally a dot and a fraction of one to
  three digits, a closing bracket.
\<close>

definition fraction_ok :: "string option \<Rightarrow> bool" where
  "fraction_ok g3 = (case g3 of None \<Rightarrow> True
      | Some f \<Rightarrow> list_all is_digit f \<and> 1 \<le> length f \<and> length f \<le> 3)"

definition well_formed :: "groups \<Rightarrow> bool" where
  "well_formed g = (case g of (mm, ss, g3) \<Rightarrow>
     list_all is_digit mm \<and> (length mm = 1 \<or> length mm = 2) \<and>
     list_all is_digit ss \<and> length ss = 2 \<and> fraction_ok g3)"

definition tail_text :: "string option \<Rightarrow> string" where
  "tail_text g3 = (case g3 of None \<Rightarrow> [] | Some f \<Rightarrow> CHR ''.'' # f) @ '']''"

definition tag_text :: "groups \<Rightarrow> string" where
  "tag_text g = (case g of (mm, ss, g3) \<Rightarrow> CHR ''['' # mm @ CHR '':'' # ss @ tail_text g3)"

text \<open>A tag with the fields \<open>g\<close> stands at position \<open>p\<close> of the line.\<close>

definition tag_at :: "string \<Rightarrow> nat \<Rightarrow> groups \<Rightarrow> bool" where
  "tag_at line p g = (well_formed g \<and> prefix (tag_text g) (drop p line))"

text \<open>The fields of the leftmost tag of the line.\<close>

definition leftmost_tag :: "string \<Rightarrow> groups \<Rightarrow> bool" where
  "leftmost_tag line g = (\<exists>p. tag_at line p g \<and> (\<forall>q<p. \<forall>g'. \<not> tag_at line q g'))"

text \<open>
  The lookup of the specification: the line of the greatest entry whose offset is at most
  the time, none when there is no such entry.
\<close>

definition spec_lookup :: "lrc_index \<Rightarrow> real \<Rightarrow> int option" where
  "spec_lookup ix t =
     (case filter (\<lambda>e. fst e \<le> t) ix of [] \<Rightarrow> None | e # es \<Rightarrow> Some (snd (last (e # es))))"

text \<open>
  The offset of a tag as the specification computes it: a fraction of one digit counts
  tenths, of two digits hundredths, of three digits thousandths.
\<close>

definition frac_value :: "string option \<Rightarrow> real" where
  "frac_value g3 =
     (case g3 of None \<Rightarrow> 0
      | Some f \<Rightarrow> if length f = 1 then real (py_int f) * (1 / 10)
                  else if length f = 2 then real (py_int f) * (1 / 100)
                  else real (py_int f) * (1 / 1000))"

definition spec_offset :: "groups \<Rightarrow> real" where
  "spec_offset g = (case g of (mm, ss, g3) \<Rightarrow>
     real (py_int mm) * 60 + real (py_int ss) + frac_value g3)"

subsection \<open>Auxiliary notions of the proofs\<close>

text \<open>The entries one line adds to the index.\<close>

definition entry_of :: "nat \<times> string \<Rightarrow> lrc_index" where
  "entry_of p = (case first_match (snd p) of None \<Rightarrow> [] | Some g \<Rightarrow> [(tag_seconds g, int (fst p))])"

text \<open>A scroll bar set to a value when the slot it runs changes nothing.\<close>

definition move_bar :: "view \<Rightarrow> int \<Rightarrow> main_window \<Rightarrow> main_window" where
  "move_bar ed v s =
     (if v = scroll_value s ed then s
      else s\<lparr>scroll_value := (scroll_value s)(ed := v), effects := effects s @ [Scrolled ed v]\<rparr>)"

text \<open>
  A view layer to evaluate the methods on: documents of 100 blocks, each ten scroll units
  high, and no exception raised.
\<close>

definition example_views :: qt_layer where
  "example_views = \<lparr> find_block = (\<lambda>s ed l. 0 \<le> l \<and> l < 100),
      clamped_value = (\<lambda>s ed l al. Inr (10 * l)),
      top_block_number = (\<lambda>s ed. Inr (scroll_value s ed div 10)),
      block_count = (\<lambda>s ed. 100) \<rparr>"

text \<open>A view layer in which the Qt calls of the scroll adjustment raise.\<close>

definition raising_views :: qt_layer where
  "raising_views = \<lparr> find_block = (\<lambda>s ed l. True),
      clamped_value = (\<lambda>s ed l al. Inl BaseException),
      top_block_number = (\<lambda>s ed. Inl Exception),
      block_count = (\<lambda>s ed. 1) \<rparr>"

section \<open>The pattern matcher meets the grammar\<close>

lemma not_digit [simp]:
  "\<not> is_digit CHR '':''" "\<not> is_digit CHR '']''" "\<not> is_digit CHR ''.''" "\<not> is_digit CHR ''[''"
  by (simp_all add: is_digit_def)

lemma digits_Some: "digits n s = Some (d, r) \<longleftrightarrow> (length d = n \<and> list_all is_digit d \<and> s = d @ r)"
  unfolding digits_def
  by (auto simp: min_def)

lemma digits_append: "list_all is_digit d \<Longrightarrow> digits (length d) (d @ r) = Some (d, r)"
  by (simp add: digits_Some)

lemma digits_stop:
  assumes "list_all is_digit d" "\<not> is_digit c" "length d < n"
  shows "digits n (d @ c # r) = None"
proof -
  obtain k where k: "n - length d = Suc k"
    using assms(3) by (metis Suc_diff_Suc)
  have "c \<in> set (take n (d @ c # r))"
    by (simp add: k)
  then have "\<not> list_all is_digit (take n (d @ c # r))"
    using assms(2) by (auto simp: list_all_iff)
  then show ?thesis by (simp add: digits_def)
qed

lemma lit_simps [simp]: "lit c [] = None" "lit c (x # r) = (if x = c then Some r else None)"
  by (simp_all add: lit_def)

lemma lit_Some: "lit c s = Some r \<longleftrightarrow> s = c # r"
  by (cases s) auto

lemma close_bracket_Some: "close_bracket mm ss f s = Some (g, r) \<longleftrightarrow> (g = (mm, ss, f) \<and> s = CHR '']'' # r)"
  by (auto simp: close_bracket_def lit_Some bind_eq_Some_conv)

lemma with_fraction_Some:
  "with_fraction n mm ss s = Some (g, r) \<longleftrightarrow>
     (\<exists>f. length f = n \<and> list_all is_digit f \<and> g = (mm, ss, Some f) \<and> s = CHR ''.'' # f @ CHR '']'' # r)"
  by (auto simp: with_fraction_def lit_Some digits_Some close_bracket_Some bind_eq_Some_conv)

lemma orelse_Some: "orelse a b = Some x \<longleftrightarrow> (a = Some x \<or> (a = None \<and> b = Some x))"
  by (cases a) auto

lemma orelse_None: "orelse a b = None \<longleftrightarrow> (a = None \<and> b = None)"
  by (cases a) auto

lemma after_seconds_sound:
  "after_seconds mm ss s = Some (g, r) \<Longrightarrow>
     \<exists>g3. g = (mm, ss, g3) \<and> fraction_ok g3 \<and> s = tail_text g3 @ r"
  unfolding after_seconds_def
  by (auto simp: orelse_Some with_fraction_Some close_bracket_Some fraction_ok_def tail_text_def)

lemma with_minutes_sound:
  "with_minutes n s = Some (g, r) \<Longrightarrow>
     \<exists>mm ss g3. g = (mm, ss, g3) \<and> length mm = n \<and> list_all is_digit mm \<and> list_all is_digit ss \<and> length ss = 2 \<and>
      fraction_ok g3 \<and> s = mm @ CHR '':'' # ss @ tail_text g3 @ r"
  unfolding with_minutes_def
  by (auto simp: bind_eq_Some_conv digits_Some lit_Some dest!: after_seconds_sound)

lemma match_at_sound:
  "match_at s = Some (g, r) \<Longrightarrow> well_formed g \<and> s = tag_text g @ r"
  unfolding match_at_def
  by (auto simp: bind_eq_Some_conv orelse_Some lit_Some well_formed_def tag_text_def dest!: with_minutes_sound)


lemma close_bracket_here [simp]:
  "close_bracket mm ss g3 (CHR '']'' # r) = Some ((mm, ss, g3), r)"
  by (simp add: close_bracket_def)

lemma with_fraction_hit:
  "list_all is_digit f \<Longrightarrow>
     with_fraction (length f) mm ss (CHR ''.'' # f @ CHR '']'' # r) = Some ((mm, ss, Some f), r)"
  by (simp add: with_fraction_def digits_append)

lemma with_fraction_short:
  "list_all is_digit f \<Longrightarrow> length f < n \<Longrightarrow>
     with_fraction n mm ss (CHR ''.'' # f @ CHR '']'' # r) = None"
  by (simp add: with_fraction_def digits_stop)

lemma with_fraction_absent [simp]:
  "with_fraction n mm ss (CHR '']'' # r) = None"
  by (simp add: with_fraction_def)

lemma after_seconds_complete:
  assumes "fraction_ok g3"
  shows "after_seconds mm ss (tail_text g3 @ r) = Some ((mm, ss, g3), r)"
proof (cases g3)
  case None
  then show ?thesis by (simp add: after_seconds_def tail_text_def)
next
  case (Some f)
  then have d: "list_all is_digit f" and "length f = 1 \<or> length f = 2 \<or> length f = 3"
    using assms by (auto simp: fraction_ok_def)
  then consider "length f = 1" | "length f = 2" | "length f = 3" by blast
  then show ?thesis
  proof cases
    case 1
    have "with_fraction 1 mm ss (CHR ''.'' # f @ CHR '']'' # r) = Some ((mm, ss, Some f), r)"
      using with_fraction_hit [OF d, of mm ss r] 1 by simp
    then show ?thesis
      using 1 d Some by (simp add: after_seconds_def tail_text_def with_fraction_short)
  next
    case 2
    have "with_fraction 2 mm ss (CHR ''.'' # f @ CHR '']'' # r) = Some ((mm, ss, Some f), r)"
      using with_fraction_hit [OF d, of mm ss r] 2 by simp
    then show ?thesis
      using 2 d Some by (simp add: after_seconds_def tail_text_def with_fraction_short)
  next
    case 3
    have "with_fraction 3 mm ss (CHR ''.'' # f @ CHR '']'' # r) = Some ((mm, ss, Some f), r)"
      using with_fraction_hit [OF d, of mm ss r] 3 by simp
    then show ?thesis
      using 3 d Some by (simp add: after_seconds_def tail_text_def)
  qed
qed

lemma with_minutes_hit:
  assumes "list_all is_digit mm" "list_all is_digit ss" "length ss = 2" "fraction_ok g3"
  shows "with_minutes (length mm) (mm @ CHR '':'' # ss @ tail_text g3 @ r) = Some ((mm, ss, g3), r)"
proof -
  have 1: "digits (length mm) (mm @ CHR '':'' # ss @ tail_text g3 @ r)
           = Some (mm, CHR '':'' # ss @ tail_text g3 @ r)"
    using assms(1) by (simp add: digits_Some)
  have 2: "digits 2 (ss @ tail_text g3 @ r) = Some (ss, tail_text g3 @ r)"
    using assms(2,3) by (simp add: digits_Some)
  show ?thesis
    by (simp add: with_minutes_def 1 2 after_seconds_complete [OF assms(4)])
qed

lemma with_minutes_short:
  "list_all is_digit mm \<Longrightarrow> length mm < n \<Longrightarrow> with_minutes n (mm @ CHR '':'' # r) = None"
  by (simp add: with_minutes_def digits_stop)

lemma well_formed_parts:
  "well_formed (mm, ss, g3) \<longleftrightarrow>
     list_all is_digit mm \<and> (length mm = 1 \<or> length mm = 2) \<and>
     list_all is_digit ss \<and> length ss = 2 \<and> fraction_ok g3"
  by (simp add: well_formed_def)

lemma tag_text_parts:
  "tag_text (mm, ss, g3) = CHR ''['' # mm @ CHR '':'' # ss @ tail_text g3"
  by (simp add: tag_text_def)

lemma match_at_complete:
  assumes "well_formed g"
  shows "match_at (tag_text g @ r) = Some (g, r)"
proof -
  obtain mm ss g3 where g: "g = (mm, ss, g3)" by (cases g) auto
  have wf: "list_all is_digit mm" "length mm = 1 \<or> length mm = 2"
     "list_all is_digit ss" "length ss = 2" "fraction_ok g3"
    using assms by (simp_all add: g well_formed_parts)
  have hit: "with_minutes (length mm) (mm @ CHR '':'' # ss @ tail_text g3 @ r) = Some (g, r)"
    using with_minutes_hit [OF wf(1) wf(3) wf(4) wf(5)] g by simp
  from wf(2) show ?thesis
  proof
    assume l: "length mm = 1"
    have "with_minutes 2 (mm @ CHR '':'' # ss @ tail_text g3 @ r) = None"
      using wf(1) l by (simp add: with_minutes_short)
    then show ?thesis
      using hit l by (simp add: match_at_def g tag_text_parts)
  next
    assume l: "length mm = 2"
    then show ?thesis
      using hit by (simp add: match_at_def g tag_text_parts)
  qed
qed

lemma match_at_iff:
  "match_at s = Some (g, r) \<longleftrightarrow> well_formed g \<and> s = tag_text g @ r"
  using match_at_sound match_at_complete by blast

lemma tag_at_0: "tag_at s 0 g \<longleftrightarrow> (\<exists>r. match_at s = Some (g, r))"
  by (auto simp: tag_at_def match_at_iff prefix_def)

lemma tag_at_Suc: "tag_at (c # s) (Suc p) g \<longleftrightarrow> tag_at s p g"
  by (simp add: tag_at_def)

lemma tag_at_Nil: "\<not> tag_at [] p g"
  by (simp add: tag_at_def tag_text_def split: prod.splits)

lemma first_match_None: "first_match l = None \<longleftrightarrow> (\<forall>p g. \<not> tag_at l p g)"
proof (induction l)
  case Nil
  then show ?case by (simp add: tag_at_Nil)
next
  case (Cons c s)
  show ?case
  proof (cases "match_at (c # s)")
    case None
    have "(\<forall>p g. \<not> tag_at (c # s) p g) \<longleftrightarrow> (\<forall>p g. \<not> tag_at s p g)"
    proof
      assume a: "\<forall>p g. \<not> tag_at (c # s) p g"
      show "\<forall>p g. \<not> tag_at s p g"
        using a tag_at_Suc by blast
    next
      assume a: "\<forall>p g. \<not> tag_at s p g"
      show "\<forall>p g. \<not> tag_at (c # s) p g"
      proof (intro allI)
        fix p g show "\<not> tag_at (c # s) p g"
          using a None by (cases p) (simp_all add: tag_at_0 tag_at_Suc del: split_paired_All)
      qed
    qed
    then show ?thesis using None Cons by simp
  next
    case (Some a)
    then obtain g r where "match_at (c # s) = Some (g, r)" by (cases a) auto
    then show ?thesis using tag_at_0 by fastforce
  qed
qed

lemma first_match_Some: "first_match l = Some g \<longleftrightarrow> leftmost_tag l g"
proof (induction l)
  case Nil
  then show ?case by (simp add: leftmost_tag_def tag_at_Nil)
next
  case (Cons c s)
  show ?case
  proof (cases "match_at (c # s)")
    case None
    then have no0: "\<And>g'. \<not> tag_at (c # s) 0 g'" by (simp add: tag_at_0)
    have "leftmost_tag (c # s) g \<longleftrightarrow> leftmost_tag s g"
    proof
      assume "leftmost_tag (c # s) g"
      then obtain p where p: "tag_at (c # s) p g" "\<forall>q<p. \<forall>g'. \<not> tag_at (c # s) q g'"
        by (auto simp: leftmost_tag_def)
      then obtain p' where p': "p = Suc p'" using no0 by (cases p) auto
      have "tag_at s p' g" using p(1) p' by (simp add: tag_at_Suc)
      moreover have "\<forall>q<p'. \<forall>g'. \<not> tag_at s q g'"
        using p(2) p' tag_at_Suc by (metis Suc_less_eq)
      ultimately show "leftmost_tag s g" by (auto simp: leftmost_tag_def)
    next
      assume "leftmost_tag s g"
      then obtain p where p: "tag_at s p g" "\<forall>q<p. \<forall>g'. \<not> tag_at s q g'"
        by (auto simp: leftmost_tag_def)
      have "tag_at (c # s) (Suc p) g" using p(1) by (simp add: tag_at_Suc)
      moreover have "\<forall>q<Suc p. \<forall>g'. \<not> tag_at (c # s) q g'"
      proof (intro allI impI)
        fix q g' assume "q < Suc p"
        then show "\<not> tag_at (c # s) q g'"
          using no0 p(2) by (cases q) (simp_all add: tag_at_Suc del: split_paired_All)
      qed
      ultimately show "leftmost_tag (c # s) g" unfolding leftmost_tag_def by blast
    qed
    then show ?thesis using None Cons by simp
  next
    case (Some a)
    then obtain g0 r where m: "match_at (c # s) = Some (g0, r)" by (cases a) auto
    have "leftmost_tag (c # s) g \<longleftrightarrow> g = g0"
    proof
      assume "leftmost_tag (c # s) g"
      then obtain p where p: "tag_at (c # s) p g" "\<forall>q<p. \<forall>g'. \<not> tag_at (c # s) q g'"
        by (auto simp: leftmost_tag_def)
      have t0: "tag_at (c # s) 0 g0" using m tag_at_0 by blast
      then have "p = 0" using p(2) by (cases p) auto
      then show "g = g0" using p(1) m by (simp add: tag_at_0)
    next
      assume "g = g0"
      then have "tag_at (c # s) 0 g" using m tag_at_0 by blast
      then show "leftmost_tag (c # s) g" unfolding leftmost_tag_def by blast
    qed
    then show ?thesis using m by auto
  qed
qed

section \<open>The loop of the rebuild\<close>

lemma foldl_index_line: "foldl index_line ix ps = ix @ concat (map entry_of ps)"
  by (induction ps arbitrary: ix) (auto simp: index_line_def entry_of_def split: option.splits)

lemma index_loop_concat: "index_loop text = concat (map entry_of (enumerate 0 (splitlines text)))"
  by (simp add: index_loop_def foldl_index_line)

lemma set_index_loop:
  "set (index_loop text) =
     {(tag_seconds g, int i) | i g. i < length (splitlines text) \<and> first_match (splitlines text ! i) = Some g}"
proof (intro set_eqI iffI)
  fix e assume "e \<in> set (index_loop text)"
  then obtain p where p: "p \<in> set (enumerate 0 (splitlines text))" "e \<in> set (entry_of p)"
    by (auto simp: index_loop_concat)
  have "\<exists>g. first_match (snd p) = Some g \<and> e = (tag_seconds g, int (fst p))"
  proof (cases "first_match (snd p)")
    case None
    then show ?thesis using p(2) by (simp add: entry_of_def)
  next
    case (Some g)
    then show ?thesis using p(2) by (simp add: entry_of_def)
  qed
  then obtain g where g: "first_match (snd p) = Some g" "e = (tag_seconds g, int (fst p))"
    by blast
  from p(1) have "fst p < length (splitlines text)" "snd p = splitlines text ! fst p"
    by (simp_all add: in_set_enumerate_eq)
  then show "e \<in> {(tag_seconds g, int i) | i g.
      i < length (splitlines text) \<and> first_match (splitlines text ! i) = Some g}"
    using g by (intro CollectI exI [of _ "fst p"] exI [of _ g]) simp
next
  fix e assume "e \<in> {(tag_seconds g, int i) | i g.
      i < length (splitlines text) \<and> first_match (splitlines text ! i) = Some g}"
  then obtain i g where ig: "e = (tag_seconds g, int i)" "i < length (splitlines text)"
      "first_match (splitlines text ! i) = Some g"
    by blast
  have "(i, splitlines text ! i) \<in> set (enumerate 0 (splitlines text))"
    using ig(2) by (simp add: in_set_enumerate_eq)
  moreover have "e \<in> set (entry_of (i, splitlines text ! i))"
    using ig by (simp add: entry_of_def)
  ultimately show "e \<in> set (index_loop text)"
    unfolding index_loop_concat by (metis (no_types, lifting) UN_I image_eqI set_concat set_map)
qed

lemma snd_entry_of: "e \<in> set (entry_of p) \<Longrightarrow> snd e = int (fst p)"
  by (auto simp: entry_of_def split: option.splits)

lemma lines_increase_concat:
  "sorted_wrt (<) (map fst ps) \<Longrightarrow> sorted_wrt (<) (map snd (concat (map entry_of ps)))"
proof (induction ps)
  case Nil
  then show ?case by simp
next
  case (Cons p ps)
  have one: "sorted_wrt (<) (map snd (entry_of p))"
    by (simp add: entry_of_def split: option.splits)
  have "\<forall>x\<in>set (entry_of p). \<forall>y\<in>set (concat (map entry_of ps)). snd x < snd y"
  proof (intro ballI)
    fix x y assume x: "x \<in> set (entry_of p)" and y: "y \<in> set (concat (map entry_of ps))"
    from y obtain p' where p': "p' \<in> set ps" "y \<in> set (entry_of p')" by auto
    have "fst p < fst p'" using Cons.prems p'(1) by auto
    then show "snd x < snd y" using snd_entry_of [OF x] snd_entry_of [OF p'(2)] by simp
  qed
  then show ?case using Cons one by (auto simp: sorted_wrt_append)
qed

lemma lines_increase: "sorted_wrt (<) (map snd (index_loop text))"
  by (simp add: index_loop_concat lines_increase_concat)

lemma distinct_lines_loop: "distinct (map snd (index_loop text))"
  using lines_increase strict_sorted_iff by blast

lemma distinct_lines_index: "distinct (map snd (build_index text))"
proof -
  have "mset (map snd (build_index text)) = mset (map snd (index_loop text))"
    by (simp add: build_index_def)
  then show ?thesis using distinct_lines_loop mset_eq_imp_distinct_iff by blast
qed

lemma sorted_index: "sorted (map fst (build_index text))"
  by (simp add: build_index_def)

lemma by_key_sorted:
  "(\<And>k. sorted_wrt Q (filter (\<lambda>e. f e = k) xs)) \<Longrightarrow> sorted_wrt (\<lambda>a b. f a = f b \<longrightarrow> Q a b) xs"
proof (induction xs)
  case Nil
  then show ?case by simp
next
  case (Cons a xs)
  have tl: "sorted_wrt Q (filter (\<lambda>e. f e = k) xs)" for k
    using Cons.prems [of k] by (cases "f a = k") simp_all
  have "\<forall>b\<in>set xs. f a = f b \<longrightarrow> Q a b"
    using Cons.prems [of "f a"] by auto
  then show ?case using Cons.IH tl by simp
qed

lemma ties_by_line:
  "sorted_wrt (\<lambda>a b. fst a = fst b \<longrightarrow> snd a < snd b) (build_index text)"
proof (rule by_key_sorted)
  fix k
  have "sorted_wrt (\<lambda>a b. snd a < snd b) (index_loop text)"
    using lines_increase by (simp add: sorted_wrt_map)
  then have "sorted_wrt (\<lambda>a b. snd a < snd b) (filter (\<lambda>e. fst e = k) (index_loop text))"
    by (rule sorted_wrt_filter)
  then show "sorted_wrt (\<lambda>a b. snd a < snd b) (filter (\<lambda>e. fst e = k) (build_index text))"
    by (simp add: build_index_def sort_key_stable)
qed

section \<open>The claims about the rebuild\<close>

lemma leftmost_tag_unique: "leftmost_tag l g \<Longrightarrow> leftmost_tag l g' \<Longrightarrow> g = g'"
  using first_match_Some by (metis option.inject)

lemma has_tag_leftmost: "(\<exists>p g. tag_at l p g) \<longleftrightarrow> (\<exists>g. leftmost_tag l g)"
  using first_match_Some first_match_None by (metis not_Some_eq)

text \<open>
  C3. After a rebuild the index holds exactly one entry \<open>(offset, i)\<close> for each line \<open>i\<close>
  (counted from 0) of the text that contains a tag of the grammar, the offset being that
  of the leftmost tag of the line, and nothing else: a line without a tag has no entry,
  and the result does not depend on the index held before.
\<close>

theorem rebuild_index_contents:
  "set (lrc_index (rebuild_lrc_index s)) =
     {(tag_seconds g, int i) | i g.
        i < length (splitlines (editor_text s)) \<and> leftmost_tag (splitlines (editor_text s) ! i) g}
   \<and> distinct (map snd (lrc_index (rebuild_lrc_index s)))
   \<and> (\<forall>i < length (splitlines (editor_text s)).
        (\<exists>p g. tag_at (splitlines (editor_text s) ! i) p g) \<longrightarrow>
        int i \<in> snd ` set (lrc_index (rebuild_lrc_index s)))"
proof (intro conjI allI impI)
  show eq: "set (lrc_index (rebuild_lrc_index s)) =
     {(tag_seconds g, int i) | i g.
        i < length (splitlines (editor_text s)) \<and> leftmost_tag (splitlines (editor_text s) ! i) g}"
    by (simp add: rebuild_lrc_index_def build_index_def set_index_loop first_match_Some)
  show "distinct (map snd (lrc_index (rebuild_lrc_index s)))"
    by (simp add: rebuild_lrc_index_def distinct_lines_index)
  fix i assume i: "i < length (splitlines (editor_text s))"
    and "\<exists>p g. tag_at (splitlines (editor_text s) ! i) p g"
  then obtain g where "leftmost_tag (splitlines (editor_text s) ! i) g"
    using has_tag_leftmost by blast
  then have "(tag_seconds g, int i) \<in> set (lrc_index (rebuild_lrc_index s))"
    unfolding eq using i by blast
  then show "int i \<in> snd ` set (lrc_index (rebuild_lrc_index s))"
    by force
qed

theorem rebuild_index_contents_witness:
  "leftmost_tag ''[00:01][00:05]Hi'' (''00'', ''01'', None) \<and>
   (1, 0) \<in> set (lrc_index (rebuild_lrc_index (init_window\<lparr>editor_text := ''[00:01][00:05]Hi''\<rparr>)))"
proof -
  let ?s = "init_window\<lparr>editor_text := ''[00:01][00:05]Hi''\<rparr>"
  have t: "tag_at ''[00:01][00:05]Hi'' 0 (''00'', ''01'', None)"
    by (simp add: tag_at_def well_formed_def fraction_ok_def is_digit_def tag_text_def tail_text_def)
  then have l: "leftmost_tag ''[00:01][00:05]Hi'' (''00'', ''01'', None)"
    unfolding leftmost_tag_def by blast
  have ls: "splitlines (editor_text ?s) = [''[00:01][00:05]Hi'']"
    by (simp add: splitlines_def is_linebreak_def)
  have v: "tag_seconds (''00'', ''01'', None) = 1"
    by (simp add: tag_seconds_def py_int_def digit_value_def frac_sec_def)
  have "(tag_seconds (''00'', ''01'', None), int 0) \<in> set (lrc_index (rebuild_lrc_index ?s))"
    using rebuild_index_contents [of ?s] l ls by auto
  then show ?thesis using l v by simp
qed

text \<open>
  C6. After every rebuild the index is sorted by non-decreasing offset, and of two
  entries with the same offset the one that stands first has the smaller line number.
\<close>

theorem rebuild_sorted_stable:
  "sorted (map fst (lrc_index (rebuild_lrc_index s))) \<and>
   (\<forall>i j. i < j \<and> j < length (lrc_index (rebuild_lrc_index s)) \<and>
          fst (lrc_index (rebuild_lrc_index s) ! i) = fst (lrc_index (rebuild_lrc_index s) ! j)
      \<longrightarrow> snd (lrc_index (rebuild_lrc_index s) ! i) < snd (lrc_index (rebuild_lrc_index s) ! j))"
proof -
  have ix: "lrc_index (rebuild_lrc_index s) = build_index (editor_text s)"
    by (simp add: rebuild_lrc_index_def)
  show ?thesis
    unfolding ix using sorted_index [of "editor_text s"] ties_by_line [of "editor_text s"]
    by (simp add: sorted_wrt_iff_nth_less)
qed

theorem rebuild_sorted_stable_witness:
  "(0::nat) < 1 \<and> 1 < length (lrc_index (rebuild_lrc_index (init_window\<lparr>editor_text := ''[00:02]a\<newline>[00:01]b\<newline>[00:01]c''\<rparr>)))
   \<and> fst (lrc_index (rebuild_lrc_index (init_window\<lparr>editor_text := ''[00:02]a\<newline>[00:01]b\<newline>[00:01]c''\<rparr>)) ! 0)
     = fst (lrc_index (rebuild_lrc_index (init_window\<lparr>editor_text := ''[00:02]a\<newline>[00:01]b\<newline>[00:01]c''\<rparr>)) ! 1)
   \<and> snd (lrc_index (rebuild_lrc_index (init_window\<lparr>editor_text := ''[00:02]a\<newline>[00:01]b\<newline>[00:01]c''\<rparr>)) ! 0)
     < snd (lrc_index (rebuild_lrc_index (init_window\<lparr>editor_text := ''[00:02]a\<newline>[00:01]b\<newline>[00:01]c''\<rparr>)) ! 1)"
proof -
  let ?s = "init_window\<lparr>editor_text := ''[00:02]a\<newline>[00:01]b\<newline>[00:01]c''\<rparr>"
  have ix: "lrc_index (rebuild_lrc_index ?s) = [(1, 1), (1, 2), (2, 0)]"
    by (simp add: rebuild_lrc_index_def build_index_def index_loop_def splitlines_def
        is_linebreak_def enumerate_eq_zip index_line_def match_at_def lit_def with_minutes_def
        digits_def is_digit_def after_seconds_def with_fraction_def close_bracket_def
        tag_seconds_def py_int_def frac_sec_def digit_value_def)
  have h: "(0::nat) < 1 \<and> 1 < length (lrc_index (rebuild_lrc_index ?s)) \<and>
      fst (lrc_index (rebuild_lrc_index ?s) ! 0) = fst (lrc_index (rebuild_lrc_index ?s) ! 1)"
    by (simp add: ix)
  then show ?thesis
    using rebuild_sorted_stable [of ?s] by blast
qed

section \<open>The claims about the tag arithmetic\<close>

lemma tag_seconds_spec:
  assumes "well_formed g"
  shows "tag_seconds g = spec_offset g"
proof -
  obtain mm ss g3 where g: "g = (mm, ss, g3)" by (cases g) auto
  have ok: "fraction_ok g3" using assms by (simp add: g well_formed_parts)
  have "frac_sec g3 = frac_value g3"
  proof (cases g3)
    case None
    then show ?thesis by (simp add: frac_sec_def frac_value_def py_int_def digit_value_def)
  next
    case (Some f)
    then have "1 \<le> length f" "length f \<le> 3" using ok by (simp_all add: fraction_ok_def)
    then show ?thesis using Some by (auto simp: frac_sec_def frac_value_def)
  qed
  then show ?thesis by (simp add: g tag_seconds_def spec_offset_def)
qed

lemma py_int_snoc: "py_int (ds @ [c]) = 10 * py_int ds + digit_value c"
  by (simp add: py_int_def)

lemma digit_value_le: "is_digit c \<Longrightarrow> digit_value c \<le> 9"
  by (auto simp: is_digit_def digit_value_def)

lemma py_int_bound: "list_all is_digit ds \<Longrightarrow> py_int ds < 10 ^ length ds"
proof (induction ds rule: rev_induct)
  case Nil
  then show ?case by (simp add: py_int_def)
next
  case (snoc c ds)
  then have "py_int ds < 10 ^ length ds" "digit_value c \<le> 9"
    by (simp_all add: digit_value_le)
  then show ?case by (simp add: py_int_snoc)
qed

lemma frac_value_range:
  assumes "fraction_ok g3"
  shows "0 \<le> frac_value g3 \<and> frac_value g3 < 1"
proof (cases g3)
  case None
  then show ?thesis by (simp add: frac_value_def)
next
  case (Some f)
  then have f: "list_all is_digit f" "1 \<le> length f" "length f \<le> 3"
    using assms by (simp_all add: fraction_ok_def)
  have b: "real (py_int f) < 10 ^ length f"
    using py_int_bound [OF f(1)] by (metis of_nat_less_iff of_nat_numeral of_nat_power)
  from f(2,3) consider "length f = 1" | "length f = 2" | "length f = 3" by linarith
  then show ?thesis
  proof cases
    case 1 then show ?thesis using b Some by (simp add: frac_value_def)
  next
    case 2 then show ?thesis using b Some by (simp add: frac_value_def)
  next
    case 3 then show ?thesis using b Some by (simp add: frac_value_def)
  qed
qed

lemma frac_sec_rounded_value:
  "fraction_ok g3 \<Longrightarrow> frac_sec_rounded fl g3 = fl (frac_value g3)"
proof (cases g3)
  case None
  then show ?thesis by (simp add: frac_sec_rounded_def frac_value_def py_int_def digit_value_def)
next
  case (Some f)
  assume "fraction_ok g3"
  then have "1 \<le> length f" "length f \<le> 3" using Some by (simp_all add: fraction_ok_def)
  then show ?thesis using Some by (auto simp: frac_sec_rounded_def frac_value_def)
qed

lemma tag_seconds_rounded_close:
  assumes wf: "well_formed g" and fl: "\<And>x. \<bar>fl x - x\<bar> \<le> \<bar>x\<bar> / 2 ^ 53"
  shows "\<bar>tag_seconds_rounded fl g - spec_offset g\<bar> \<le> 1 / 10 ^ 6"
proof -
  obtain mm ss g3 where g: "g = (mm, ss, g3)" by (cases g) auto
  have parts: "list_all is_digit mm" "length mm = 1 \<or> length mm = 2"
      "list_all is_digit ss" "length ss = 2" "fraction_ok g3"
    using wf by (simp_all add: g well_formed_parts)
  have "py_int mm < 10 ^ length mm" using parts(1) by (rule py_int_bound)
  then have m: "py_int mm < 100" using parts(2) by auto
  have "py_int ss < 10 ^ length ss" using parts(3) by (rule py_int_bound)
  then have s: "py_int ss < 100" using parts(4) by simp
  define N where "N = real (py_int mm * 60 + py_int ss)"
  define q where "q = frac_value g3"
  have N: "0 \<le> N" "N \<le> 6039" using m s by (simp_all add: N_def)
  have q: "0 \<le> q" "q < 1" using frac_value_range [OF parts(5)] by (simp_all add: q_def)
  have e1: "\<bar>fl q - q\<bar> \<le> 1 / 2 ^ 53"
  proof -
    have "\<bar>fl q - q\<bar> \<le> \<bar>q\<bar> / 2 ^ 53" by (rule fl)
    also have "\<dots> \<le> 1 / 2 ^ 53" using q by (simp add: divide_right_mono)
    finally show ?thesis .
  qed
  have small: "(1::real) / 2 ^ 53 \<le> 1" by simp
  have e1': "\<bar>fl q - q\<bar> \<le> 1" using e1 small by linarith
  have e2: "\<bar>fl (N + fl q) - (N + fl q)\<bar> \<le> 6041 / 2 ^ 53"
  proof -
    have "\<bar>N + fl q\<bar> \<le> 6041" using N q e1' by linarith
    then have "\<bar>N + fl q\<bar> / 2 ^ 53 \<le> 6041 / 2 ^ 53" by (rule divide_right_mono) simp
    then show ?thesis using fl [of "N + fl q"] by linarith
  qed
  have t: "tag_seconds_rounded fl g = fl (N + fl q)"
    by (simp add: g tag_seconds_rounded_def frac_sec_rounded_value [OF parts(5)] N_def q_def)
  have sp: "spec_offset g = N + q"
    by (simp add: g spec_offset_def N_def q_def)
  have tol: "(6041::real) / 2 ^ 53 + 1 / 2 ^ 53 \<le> 1 / 10 ^ 6" by simp
  have "\<bar>fl (N + fl q) - (N + q)\<bar> \<le> 6041 / 2 ^ 53 + 1 / 2 ^ 53"
    using e1 e2 by linarith
  then have "\<bar>fl (N + fl q) - (N + q)\<bar> \<le> 1 / 10 ^ 6"
    using tol by linarith
  then show ?thesis unfolding t sp .
qed

lemma tag_seconds_unrounded: "tag_seconds g = tag_seconds_rounded (\<lambda>x. x) g"
  by (simp add: tag_seconds_def tag_seconds_rounded_def frac_sec_def frac_sec_rounded_def
      split: prod.splits)

lemma leftmost_tag_well_formed: "leftmost_tag line g \<Longrightarrow> well_formed g"
  by (auto simp: leftmost_tag_def tag_at_def)

text \<open>
  C4. For every matched tag, with minutes of one or two digits, seconds of exactly two
  digits (of any value: \<open>[01:75]\<close> gives 135) and an optional fraction of one to three
  digits, the offset put into the index equals minutes * 60 + seconds + fraction within
  \<open>10\<^sup>-\<^sup>6\<close>, the fraction counting tenths, hundredths or thousandths by its number of
  digits. Computed without rounding the two are equal; computed with any rounding \<open>fl\<close>
  of relative error at most \<open>2\<^sup>-\<^sup>5\<^sup>3\<close>, as that of a double, they differ by less than the
  tolerance.
\<close>

theorem matched_tag_offset:
  "leftmost_tag line g \<Longrightarrow>
     well_formed g \<and> index_line ix (i, line) = ix @ [(tag_seconds g, int i)] \<and>
     \<bar>tag_seconds g - spec_offset g\<bar> \<le> 1 / 10 ^ 6 \<and>
     ((\<forall>x. \<bar>fl x - x\<bar> \<le> \<bar>x\<bar> / 2 ^ 53) \<longrightarrow>
        \<bar>tag_seconds_rounded fl g - spec_offset g\<bar> \<le> 1 / 10 ^ 6)"
proof -
  assume l: "leftmost_tag line g"
  then have wf: "well_formed g" by (rule leftmost_tag_well_formed)
  have "first_match line = Some g" using l by (simp add: first_match_Some)
  then have "index_line ix (i, line) = ix @ [(tag_seconds g, int i)]"
    by (simp add: index_line_def)
  moreover have "(\<forall>x. \<bar>fl x - x\<bar> \<le> \<bar>x\<bar> / 2 ^ 53) \<longrightarrow>
        \<bar>tag_seconds_rounded fl g - spec_offset g\<bar> \<le> 1 / 10 ^ 6"
    using tag_seconds_rounded_close [OF wf, of fl] by blast
  ultimately show ?thesis using wf tag_seconds_spec [OF wf] by simp
qed

theorem matched_tag_offset_witness:
  "leftmost_tag ''[01:75]'' (''01'', ''75'', None) \<and>
   index_line [] (0, ''[01:75]'') = [(135, 0)] \<and>
   spec_offset (''01'', ''75'', None) = 135 \<and>
   \<bar>tag_seconds_rounded (\<lambda>x. x) (''01'', ''75'', None) - 135\<bar> \<le> 1 / 10 ^ 6"
proof -
  have t: "tag_at ''[01:75]'' 0 (''01'', ''75'', None)"
    by (simp add: tag_at_def well_formed_def fraction_ok_def is_digit_def tag_text_def tail_text_def)
  then have l: "leftmost_tag ''[01:75]'' (''01'', ''75'', None)"
    unfolding leftmost_tag_def by blast
  have v: "tag_seconds (''01'', ''75'', None) = 135"
    by (simp add: tag_seconds_def py_int_def digit_value_def frac_sec_def)
  have w: "spec_offset (''01'', ''75'', None) = 135"
    by (simp add: spec_offset_def py_int_def digit_value_def frac_value_def)
  have f: "\<forall>x::real. \<bar>x - x\<bar> \<le> \<bar>x\<bar> / 2 ^ 53" by simp
  show ?thesis
    using matched_tag_offset [OF l, of "[]" 0 "\<lambda>x. x"] l v w f by simp
qed

lemma fraction_variants:
  "tag_seconds (''00'', ''01'', Some ''5'') = 3 / 2"
  "tag_seconds (''00'', ''01'', Some ''50'') = 3 / 2"
  "tag_seconds (''00'', ''01'', Some ''500'') = 3 / 2"
  by (simp_all add: tag_seconds_def py_int_def digit_value_def frac_sec_def)








section \<open>The lookup\<close>

lemma scan_index_takeWhile:
  "scan_index es t j idx =
     (if takeWhile (\<lambda>e. fst e \<le> t) es = [] then idx
      else j + length (takeWhile (\<lambda>e. fst e \<le> t) es) - 1)"
  by (induction es arbitrary: j idx) auto

lemma scan_index_in_range: "ix \<noteq> [] \<Longrightarrow> scan_index ix t 0 0 < length ix"
proof -
  assume "ix \<noteq> []"
  moreover have "length (takeWhile (\<lambda>e. fst e \<le> t) ix) \<le> length ix"
    by (rule length_takeWhile_le)
  ultimately show ?thesis by (cases ix) (auto simp: scan_index_takeWhile)
qed

lemma resolve_line_position:
  "ix \<noteq> [] \<Longrightarrow> resolve_line ix t = Some (snd (ix ! (length (takeWhile (\<lambda>e. fst e \<le> t) ix) - 1)))"
  by (simp add: resolve_line_def scan_index_takeWhile)

lemma resolve_line_empty: "resolve_line [] t = None"
  by (simp add: resolve_line_def)

lemma filter_is_takeWhile:
  "sorted (map fst ix) \<Longrightarrow> filter (\<lambda>e. fst e \<le> (t::real)) ix = takeWhile (\<lambda>e. fst e \<le> t) ix"
proof (induction ix)
  case Nil
  then show ?case by simp
next
  case (Cons e es)
  show ?case
  proof (cases "fst e \<le> t")
    case True
    then show ?thesis using Cons by simp
  next
    case False
    then have "\<forall>x\<in>set es. \<not> fst x \<le> t" using Cons.prems by fastforce
    then have "filter (\<lambda>e. fst e \<le> t) es = []" by (simp add: filter_empty_conv)
    then show ?thesis using False by simp
  qed
qed

lemma resolve_line_meets_spec:
  assumes "sorted (map fst ix)" "ix \<noteq> []" "fst (hd ix) \<le> t"
  shows "resolve_line ix t = spec_lookup ix t"
proof -
  let ?tw = "takeWhile (\<lambda>e. fst e \<le> t) ix"
  have ne: "?tw \<noteq> []" using assms(2,3) by (cases ix) auto
  have f: "filter (\<lambda>e. fst e \<le> t) ix = ?tw" using assms(1) by (rule filter_is_takeWhile)
  have "last ?tw = ?tw ! (length ?tw - 1)" using ne by (rule last_conv_nth)
  also have "\<dots> = ix ! (length ?tw - 1)" using ne by (simp add: takeWhile_nth)
  finally have la: "last ?tw = ix ! (length ?tw - 1)" .
  obtain e es where c: "?tw = e # es" using ne by (cases ?tw) auto
  have "spec_lookup ix t = Some (snd (last ?tw))"
    unfolding spec_lookup_def f c by simp
  then show ?thesis using assms(2) la by (simp add: resolve_line_position)
qed

lemma resolve_line_before_first:
  "ix \<noteq> [] \<Longrightarrow> t < fst (hd ix) \<Longrightarrow> resolve_line ix t = Some (snd (hd ix))"
  by (cases ix) (auto simp: resolve_line_def)

lemma spec_lookup_before_first:
  assumes "sorted (map fst ix)" "ix \<noteq> []" "t < fst (hd ix)"
  shows "spec_lookup ix t = None"
proof -
  have "takeWhile (\<lambda>e. fst e \<le> t) ix = []" using assms(2,3) by (cases ix) auto
  then have "filter (\<lambda>e. fst e \<le> t) ix = []" using filter_is_takeWhile [OF assms(1)] by simp
  then show ?thesis by (simp add: spec_lookup_def)
qed

lemma rebuild_frame [simp]:
  "current_line_no (rebuild_lrc_index s) = current_line_no s"
  "sync_lock (rebuild_lrc_index s) = sync_lock s"
  "scroll_value (rebuild_lrc_index s) = scroll_value s"
  "effects (rebuild_lrc_index s) = effects s"
  "editor_text (rebuild_lrc_index s) = editor_text s"
  by (simp_all add: rebuild_lrc_index_def)

lemma takeWhile_longer:
  "(\<And>x. P x \<Longrightarrow> Q x) \<Longrightarrow> length (takeWhile P xs) \<le> length (takeWhile Q xs)"
  by (induction xs) auto

lemma scenario_A_index:
  "lrc_index (rebuild_lrc_index (init_window\<lparr>editor_text := ''[00:01.500]Hello\<newline>[00:03.000]World''\<rparr>))
     = [(3 / 2, 0), (3, 1)]"
  by (simp add: rebuild_lrc_index_def build_index_def index_loop_def splitlines_def
        is_linebreak_def enumerate_eq_zip index_line_def match_at_def lit_def with_minutes_def
        digits_def is_digit_def after_seconds_def with_fraction_def close_bracket_def
        tag_seconds_def py_int_def frac_sec_def digit_value_def)

text \<open>
  C1. The lookup is to return the line of the greatest entry whose offset is at most the
  time, and no line when the index is empty or the time is before the first entry. On the
  index of \<open>[00:01.500]Hello\<close>, \<open>[00:03.000]World\<close> and the time 0 the specification's
  lookup gives no line, while the method resolves line 0 and highlights it.
\<close>

theorem lookup_before_first_entry:
  "lrc_index (rebuild_lrc_index (init_window\<lparr>editor_text := ''[00:01.500]Hello\<newline>[00:03.000]World''\<rparr>))
     = [(3 / 2, 0), (3, 1)] \<and>
   resolve_line [(3 / 2, 0), (3, 1)] 0 = Some 0 \<and>
   spec_lookup [(3 / 2, 0), (3, 1)] 0 = None \<and>
   map_option (\<lambda>r. (current_line_no (snd r), effects (snd r)))
     (update_lrc_highlight 1 example_views 0
        (rebuild_lrc_index (init_window\<lparr>editor_text := ''[00:01.500]Hello\<newline>[00:03.000]World''\<rparr>)))
     = Some (0, [Highlighted Editable 0, Highlighted Original 0])"
proof -
  let ?s = "rebuild_lrc_index (init_window\<lparr>editor_text := ''[00:01.500]Hello\<newline>[00:03.000]World''\<rparr>)"
  have ix: "lrc_index ?s = [(3 / 2, 0), (3, 1)]" by (rule scenario_A_index)
  have r: "resolve_line [(3 / 2, 0), (3, 1)] 0 = Some 0" by (simp add: resolve_line_def)
  have sp: "spec_lookup [(3 / 2, 0), (3, 1)] 0 = None" by (simp add: spec_lookup_def)
  have fr: "current_line_no init_window = - 1" "sync_lock init_window = False"
      "scroll_value init_window = (\<lambda>_. 0)" "effects init_window = []"
    by (simp_all add: init_window_def)
  have "map_option (\<lambda>r. (current_line_no (snd r), effects (snd r)))
          (update_lrc_highlight 1 example_views 0 ?s)
        = Some (0, [Highlighted Editable 0, Highlighted Original 0])"
    unfolding update_lrc_highlight_def ix r
    by (simp add: fr scroll_both_to_line_def example_views_def apply_line_highlight_def)
  then show ?thesis using ix r sp by simp
qed

text \<open>With the tags out of document order the resolved line decreases as time grows.\<close>

theorem line_order_counterexample:
  "(2::real) < 6 \<and>
   resolve_line (lrc_index (rebuild_lrc_index (init_window\<lparr>editor_text := ''[00:05]a\<newline>[00:01]b''\<rparr>))) 2 = Some 1 \<and>
   resolve_line (lrc_index (rebuild_lrc_index (init_window\<lparr>editor_text := ''[00:05]a\<newline>[00:01]b''\<rparr>))) 6 = Some 0 \<and>
   \<not> (1::int) \<le> 0"
  by (simp add: rebuild_lrc_index_def build_index_def index_loop_def splitlines_def
        is_linebreak_def enumerate_eq_zip index_line_def match_at_def lit_def with_minutes_def
        digits_def is_digit_def after_seconds_def with_fraction_def close_bracket_def
        tag_seconds_def py_int_def frac_sec_def digit_value_def resolve_line_def)

text \<open>
  C2, amended. For a text whose tagged lines carry non-decreasing offsets in document
  order and two times \<open>t1 < t2\<close> at which a line is resolved on the rebuilt index, the line
  resolved at \<open>t1\<close> is at most the line resolved at \<open>t2\<close>.
\<close>

theorem line_order_in_document_order:
  assumes "sorted (map fst (index_loop (editor_text s)))"
    and "t1 < t2"
    and "resolve_line (lrc_index (rebuild_lrc_index s)) t1 = Some l1"
    and "resolve_line (lrc_index (rebuild_lrc_index s)) t2 = Some l2"
  shows "l1 \<le> l2"
proof -
  let ?ix = "index_loop (editor_text s)"
  let ?p1 = "length (takeWhile (\<lambda>e. fst e \<le> t1) ?ix) - 1"
  let ?p2 = "length (takeWhile (\<lambda>e. fst e \<le> t2) ?ix) - 1"
  have ix: "lrc_index (rebuild_lrc_index s) = ?ix"
    using assms(1) by (simp add: rebuild_lrc_index_def build_index_def sort_key_id_if_sorted)
  have ne: "?ix \<noteq> []" using assms(3) by (auto simp: ix resolve_line_def split: if_splits)
  have l1: "l1 = snd (?ix ! ?p1)" and l2: "l2 = snd (?ix ! ?p2)"
    using assms(3,4) ne by (simp_all add: ix resolve_line_position)
  have "length (takeWhile (\<lambda>e. fst e \<le> t1) ?ix) \<le> length (takeWhile (\<lambda>e. fst e \<le> t2) ?ix)"
    using assms(2) by (intro takeWhile_longer) simp
  then have le: "?p1 \<le> ?p2" by simp
  have "length (takeWhile (\<lambda>e. fst e \<le> t2) ?ix) \<le> length ?ix" by (rule length_takeWhile_le)
  then have lt: "?p2 < length ?ix" using ne by (cases ?ix) auto
  have "sorted (map snd ?ix)"
    using lines_increase [of "editor_text s"] strict_sorted_imp_sorted by blast
  then have "map snd ?ix ! ?p1 \<le> map snd ?ix ! ?p2"
    using le lt by (intro sorted_nth_mono) simp_all
  then show ?thesis using l1 l2 le lt by simp
qed

theorem line_order_in_document_order_witness:
  "sorted (map fst (index_loop (editor_text (init_window\<lparr>editor_text := ''[00:01.500]Hello\<newline>[00:03.000]World''\<rparr>))))
   \<and> (2::real) < 7 / 2
   \<and> resolve_line (lrc_index (rebuild_lrc_index (init_window\<lparr>editor_text := ''[00:01.500]Hello\<newline>[00:03.000]World''\<rparr>))) 2 = Some 0
   \<and> resolve_line (lrc_index (rebuild_lrc_index (init_window\<lparr>editor_text := ''[00:01.500]Hello\<newline>[00:03.000]World''\<rparr>))) (7 / 2) = Some 1
   \<and> (0::int) \<le> 1"
proof -
  let ?s = "init_window\<lparr>editor_text := ''[00:01.500]Hello\<newline>[00:03.000]World''\<rparr>"
  have a: "sorted (map fst (index_loop (editor_text ?s)))"
    by (simp add: index_loop_def splitlines_def
        is_linebreak_def enumerate_eq_zip index_line_def match_at_def lit_def with_minutes_def
        digits_def is_digit_def after_seconds_def with_fraction_def close_bracket_def
        tag_seconds_def py_int_def frac_sec_def digit_value_def)
  have b: "(2::real) < 7 / 2" by simp
  have c: "resolve_line (lrc_index (rebuild_lrc_index ?s)) 2 = Some 0"
    by (simp add: scenario_A_index resolve_line_def)
  have d: "resolve_line (lrc_index (rebuild_lrc_index ?s)) (7 / 2) = Some 1"
    by (simp add: scenario_A_index resolve_line_def)
  show ?thesis
    using line_order_in_document_order [OF a b c d] a b c d by simp
qed

section \<open>The states of a rebuild\<close>

lemma loop_states_prefix:
  "st \<in> set (loop_states ix ps) \<Longrightarrow> prefix st (foldl index_line ix ps)"
proof (induction ps arbitrary: ix)
  case Nil
  then show ?case by simp
next
  case (Cons p ps)
  from Cons.prems have "st = index_line ix p \<or> st \<in> set (loop_states (index_line ix p) ps)"
    by simp
  then show ?case
  proof
    assume "st = index_line ix p"
    then show ?thesis by (simp add: foldl_index_line)
  next
    assume "st \<in> set (loop_states (index_line ix p) ps)"
    then show ?thesis using Cons.IH by simp
  qed
qed

text \<open>During a rebuild the index takes a value that is neither the old nor the new index.\<close>

theorem rebuild_in_place_counterexample:
  "[(5, 0)] \<in> set (rebuild_states (editor_text (init_window\<lparr>editor_text := ''[00:05]a\<newline>[00:01]b'', lrc_index := [(9, 3)]\<rparr>)))
   \<and> [(5, 0)] \<noteq> lrc_index (init_window\<lparr>editor_text := ''[00:05]a\<newline>[00:01]b'', lrc_index := [(9, 3)]\<rparr>)
   \<and> [(5, 0)] \<noteq> lrc_index (rebuild_lrc_index (init_window\<lparr>editor_text := ''[00:05]a\<newline>[00:01]b'', lrc_index := [(9, 3)]\<rparr>))"
  by (simp add: rebuild_states_def rebuild_lrc_index_def build_index_def index_loop_def splitlines_def
        is_linebreak_def enumerate_eq_zip index_line_def match_at_def lit_def with_minutes_def
        digits_def is_digit_def after_seconds_def with_fraction_def close_bracket_def
        tag_seconds_def py_int_def frac_sec_def digit_value_def)

text \<open>
  C7, amended. A rebuild first replaces the index by a fresh empty list and then appends
  to it and sorts it in place: every value the index takes before the last one is a prefix
  of the unsorted list of the new entries, and the last one is the complete new index.
\<close>

theorem rebuild_states_shape:
  "hd (rebuild_states (editor_text s)) = [] \<and>
   (\<forall>st \<in> set (butlast (rebuild_states (editor_text s))). prefix st (index_loop (editor_text s))) \<and>
   last (rebuild_states (editor_text s)) = lrc_index (rebuild_lrc_index s)"
proof (intro conjI ballI)
  show "hd (rebuild_states (editor_text s)) = []"
    by (simp add: rebuild_states_def)
  show "last (rebuild_states (editor_text s)) = lrc_index (rebuild_lrc_index s)"
    by (simp add: rebuild_states_def rebuild_lrc_index_def build_index_def)
  fix st assume "st \<in> set (butlast (rebuild_states (editor_text s)))"
  then have "st = [] \<or> st \<in> set (loop_states [] (enumerate 0 (splitlines (editor_text s))))"
    by (simp add: rebuild_states_def butlast_append)
  then show "prefix st (index_loop (editor_text s))"
    using loop_states_prefix by (auto simp: index_loop_def)
qed

theorem rebuild_states_shape_witness:
  "[(5, 0)] \<in> set (butlast (rebuild_states (editor_text (init_window\<lparr>editor_text := ''[00:05]a\<newline>[00:01]b'', lrc_index := [(9, 3)]\<rparr>))))
   \<and> prefix [(5, 0)] (index_loop (editor_text (init_window\<lparr>editor_text := ''[00:05]a\<newline>[00:01]b'', lrc_index := [(9, 3)]\<rparr>)))"
proof -
  let ?s = "init_window\<lparr>editor_text := ''[00:05]a\<newline>[00:01]b'', lrc_index := [(9, 3)]\<rparr>"
  have h: "[(5, 0)] \<in> set (butlast (rebuild_states (editor_text ?s)))"
    by (simp add: rebuild_states_def index_loop_def splitlines_def
        is_linebreak_def enumerate_eq_zip index_line_def match_at_def lit_def with_minutes_def
        digits_def is_digit_def after_seconds_def with_fraction_def close_bracket_def
        tag_seconds_def py_int_def frac_sec_def digit_value_def butlast_append)
  show ?thesis
    using rebuild_states_shape [of ?s] h by blast
qed

section \<open>Scroll coupling under the lock\<close>

lemma move_bar_frame [simp]:
  "lrc_index (move_bar ed v s) = lrc_index s"
  "current_line_no (move_bar ed v s) = current_line_no s"
  "sync_lock (move_bar ed v s) = sync_lock s"
  "editor_text (move_bar ed v s) = editor_text s"
  by (simp_all add: move_bar_def)

lemma move_bar_same [simp]: "move_bar ed (scroll_value s ed) s = s"
  by (simp add: move_bar_def)

lemma move_bar_lock:
  "(move_bar ed v (s\<lparr>sync_lock := b\<rparr>))\<lparr>sync_lock := c\<rparr> = move_bar ed v (s\<lparr>sync_lock := c\<rparr>)"
  by (simp add: move_bar_def)

lemma unlock_unlocked: "\<not> sync_lock s \<Longrightarrow> s\<lparr>sync_lock := False\<rparr> = s"
  by simp

lemma sync_scroll_from_held: "sync_lock s \<Longrightarrow> sync_scroll_from n q src dst s = Some (Inr (), s)"
  by simp

lemma set_value_held: "sync_lock s \<Longrightarrow> set_value (Suc n) q ed v s = Some (move_bar ed v s)"
  by (simp add: move_bar_def)

lemma set_value_held_result:
  "sync_lock s \<Longrightarrow> set_value n q ed v s = Some s' \<Longrightarrow> s' = move_bar ed v s"
  by (cases n) (auto simp: move_bar_def split: if_splits)

lemma scroll_view_held:
  "sync_lock s \<Longrightarrow> \<exists>r v. scroll_editor_view_to_line (Suc n) q ed l al s = Some (r, move_bar ed v s)"
proof -
  assume h: "sync_lock s"
  show ?thesis
  proof (cases "find_block q s ed l")
    case False
    then have "scroll_editor_view_to_line (Suc n) q ed l al s = Some (Inr (), move_bar ed (scroll_value s ed) s)"
      by simp
    then show ?thesis by blast
  next
    case True
    show ?thesis
    proof (cases "clamped_value q s ed l al")
      case (Inl e)
      then have "\<exists>r. scroll_editor_view_to_line (Suc n) q ed l al s = Some (r, move_bar ed (scroll_value s ed) s)"
        using True by (cases e) (simp_all add: except_Exception_pass_def)
      then show ?thesis by blast
    next
      case (Inr v)
      then have "scroll_editor_view_to_line (Suc n) q ed l al s = Some (Inr (), move_bar ed v s)"
        using True h by (simp add: move_bar_def)
      then show ?thesis by blast
    qed
  qed
qed

lemma scroll_view_held_result:
  assumes "sync_lock s" "scroll_editor_view_to_line n q ed l al s = Some (r, s')"
  shows "\<exists>v. s' = move_bar ed v s"
proof (cases "find_block q s ed l")
  case False
  then have "s' = move_bar ed (scroll_value s ed) s" using assms(2) by simp
  then show ?thesis by blast
next
  case True
  show ?thesis
  proof (cases "clamped_value q s ed l al")
    case (Inl e)
    then have "s' = move_bar ed (scroll_value s ed) s"
      using True assms(2) by (cases e) (simp_all add: except_Exception_pass_def)
    then show ?thesis by blast
  next
    case (Inr v)
    then obtain s2 where "set_value n q ed v s = Some s2" "s' = s2"
      using True assms(2) by (auto split: option.splits)
    then show ?thesis using set_value_held_result [OF assms(1)] by blast
  qed
qed

lemma scroll_both_result:
  assumes "scroll_both_to_line n q l s = Some (r, s')"
  shows "\<exists>v w. s' = move_bar Editable w (move_bar Original v s)"
proof (cases "sync_lock s")
  case True
  then have "s' = s" using assms by (simp add: scroll_both_to_line_def)
  then have "s' = move_bar Editable (scroll_value s Editable) (move_bar Original (scroll_value s Original) s)"
    by simp
  then show ?thesis by blast
next
  case False
  let ?h = "s\<lparr>sync_lock := True\<rparr>"
  have h: "sync_lock ?h" by simp
  from assms False obtain r1 s1 where 1: "scroll_editor_view_to_line n q Original l Center ?h = Some (r1, s1)"
    by (auto simp: scroll_both_to_line_def split: option.splits)
  from scroll_view_held_result [OF h 1] obtain v where s1: "s1 = move_bar Original v ?h" by blast
  show ?thesis
  proof (cases r1)
    case (Inl e)
    then have "s' = s1\<lparr>sync_lock := False\<rparr>"
      using assms False 1 by (simp add: scroll_both_to_line_def)
    then have "s' = move_bar Original v s"
      by (simp add: s1 move_bar_lock unlock_unlocked [OF False])
    then have "s' = move_bar Editable (scroll_value (move_bar Original v s) Editable) (move_bar Original v s)"
      by simp
    then show ?thesis by blast
  next
    case (Inr u)
    then obtain r2 s2 where 2: "scroll_editor_view_to_line n q Editable l Center s1 = Some (r2, s2)"
        and s': "s' = s2\<lparr>sync_lock := False\<rparr>"
      using assms False 1 by (auto simp: scroll_both_to_line_def split: option.splits)
    have h1: "sync_lock s1" by (simp add: s1)
    from scroll_view_held_result [OF h1 2] obtain w where s2: "s2 = move_bar Editable w s1" by blast
    have "s' = move_bar Editable w (move_bar Original v (s\<lparr>sync_lock := False\<rparr>))"
      by (simp add: s' s2 s1 move_bar_def)
    then have "s' = move_bar Editable w (move_bar Original v s)"
      by (simp add: unlock_unlocked [OF False])
    then show ?thesis by blast
  qed
qed

lemma scroll_both_total:
  "\<exists>r s'. scroll_both_to_line (Suc n) q l s = Some (r, s')"
proof (cases "sync_lock s")
  case True
  then show ?thesis by (simp add: scroll_both_to_line_def)
next
  case False
  let ?h = "s\<lparr>sync_lock := True\<rparr>"
  have h: "sync_lock ?h" by simp
  from scroll_view_held [OF h, of n q Original l Center]
  obtain r1 v where 1: "scroll_editor_view_to_line (Suc n) q Original l Center ?h = Some (r1, move_bar Original v ?h)"
    by blast
  have h1: "sync_lock (move_bar Original v ?h)" by simp
  from scroll_view_held [OF h1, of n q Editable l Center]
  obtain r2 w where 2: "scroll_editor_view_to_line (Suc n) q Editable l Center (move_bar Original v ?h)
      = Some (r2, move_bar Editable w (move_bar Original v ?h))"
    by blast
  show ?thesis
    unfolding scroll_both_to_line_def using False 1 2 by (cases r1) simp_all
qed

lemma sync_scroll_from_result:
  assumes "\<not> sync_lock s" "sync_scroll_from n q src dst s = Some (r, s')"
  shows "\<exists>v. s' = move_bar dst v s"
proof (cases "top_block_number q (s\<lparr>sync_lock := True\<rparr>) src")
  case (Inl e)
  then have "s' = s\<lparr>sync_lock := False\<rparr>" using assms by auto
  then have "s' = move_bar dst (scroll_value s dst) s"
    by (simp add: unlock_unlocked [OF assms(1)])
  then show ?thesis by blast
next
  case (Inr bn)
  let ?h = "s\<lparr>sync_lock := True\<rparr>"
  have h: "sync_lock ?h" by simp
  from assms Inr obtain s1 where 1: "scroll_editor_view_to_line n q dst
      (max 0 (min bn (block_count q ?h dst - 1))) Top ?h = Some (r, s1)" and s': "s' = s1\<lparr>sync_lock := False\<rparr>"
    by (auto split: option.splits)
  from scroll_view_held_result [OF h 1] obtain v where "s1 = move_bar dst v ?h" by blast
  then have "s' = move_bar dst v s"
    by (simp add: s' move_bar_lock unlock_unlocked [OF assms(1)])
  then show ?thesis by blast
qed

lemma sync_scroll_from_total:
  "\<exists>r s'. sync_scroll_from (Suc n) q src dst s = Some (r, s')"
proof (cases "sync_lock s")
  case True
  then show ?thesis by simp
next
  case False
  show ?thesis
  proof (cases "top_block_number q (s\<lparr>sync_lock := True\<rparr>) src")
    case (Inl e)
    then show ?thesis using False by simp
  next
    case (Inr bn)
    let ?h = "s\<lparr>sync_lock := True\<rparr>"
    have h: "sync_lock ?h" by simp
    from scroll_view_held [OF h, of n q dst "max 0 (min bn (block_count q ?h dst - 1))" Top]
    obtain r1 v where "scroll_editor_view_to_line (Suc n) q dst
        (max 0 (min bn (block_count q ?h dst - 1))) Top ?h = Some (r1, move_bar dst v ?h)"
      by blast
    then show ?thesis using False Inr by simp
  qed
qed

text \<open>
  C9. Scroll coupling does not recurse. Entered with the lock held, \<open>_scroll_both_to_line\<close>
  and \<open>_sync_scroll_from\<close> return at once and change nothing, so that a scroll bar set
  while the lock is held only takes its value, whatever slot it runs. Entered without the
  lock and with fuel for one slot, each of them returns with the lock released, having
  moved at most the bars it adjusts itself, also when the adjustment raises.
\<close>

theorem coupling_single_flight:
  "(sync_lock h \<longrightarrow>
      scroll_both_to_line n q l h = Some (Inr (), h) \<and>
      sync_scroll_from n q src dst h = Some (Inr (), h) \<and>
      set_value (Suc n) q ed v h = Some (move_bar ed v h))
   \<and> (\<not> sync_lock s \<longrightarrow>
      (\<exists>r s'. scroll_both_to_line (Suc n) q l s = Some (r, s') \<and> \<not> sync_lock s' \<and>
          (\<exists>a b. s' = move_bar Editable b (move_bar Original a s))) \<and>
      (\<exists>r s'. sync_scroll_from (Suc n) q src dst s = Some (r, s') \<and> \<not> sync_lock s' \<and>
          (\<exists>a. s' = move_bar dst a s)))
   \<and> (\<not> sync_lock s \<and> find_block q (s\<lparr>sync_lock := True\<rparr>) Original l \<and>
       clamped_value q (s\<lparr>sync_lock := True\<rparr>) Original l Center = Inl BaseException \<longrightarrow>
      scroll_both_to_line n q l s = Some (Inl BaseException, s))
   \<and> (\<not> sync_lock s \<and> top_block_number q (s\<lparr>sync_lock := True\<rparr>) src = Inl e \<longrightarrow>
      sync_scroll_from n q src dst s = Some (Inl e, s))"
proof (intro conjI impI)
  assume h: "sync_lock h"
  show "scroll_both_to_line n q l h = Some (Inr (), h)"
    using h by (simp add: scroll_both_to_line_def)
  show "sync_scroll_from n q src dst h = Some (Inr (), h)"
    using h by (rule sync_scroll_from_held)
  show "set_value (Suc n) q ed v h = Some (move_bar ed v h)"
    using h by (rule set_value_held)
next
  assume u: "\<not> sync_lock s"
  obtain r s' where 1: "scroll_both_to_line (Suc n) q l s = Some (r, s')"
    using scroll_both_total by blast
  from scroll_both_result [OF 1] obtain a b where s': "s' = move_bar Editable b (move_bar Original a s)"
    by blast
  have "\<not> sync_lock s'" using u by (simp add: s')
  then show "\<exists>r s'. scroll_both_to_line (Suc n) q l s = Some (r, s') \<and> \<not> sync_lock s' \<and>
          (\<exists>a b. s' = move_bar Editable b (move_bar Original a s))"
    using 1 s' by blast
  obtain r2 s2 where 2: "sync_scroll_from (Suc n) q src dst s = Some (r2, s2)"
    using sync_scroll_from_total by blast
  from sync_scroll_from_result [OF u 2] obtain a2 where s2: "s2 = move_bar dst a2 s" by blast
  have "\<not> sync_lock s2" using u by (simp add: s2)
  then show "\<exists>r s'. sync_scroll_from (Suc n) q src dst s = Some (r, s') \<and> \<not> sync_lock s' \<and>
          (\<exists>a. s' = move_bar dst a s)"
    using 2 s2 by blast
next
  assume a: "\<not> sync_lock s \<and> find_block q (s\<lparr>sync_lock := True\<rparr>) Original l \<and>
       clamped_value q (s\<lparr>sync_lock := True\<rparr>) Original l Center = Inl BaseException"
  then have u: "\<not> sync_lock s" by simp
  show "scroll_both_to_line n q l s = Some (Inl BaseException, s)"
    using a by (simp add: scroll_both_to_line_def except_Exception_pass_def unlock_unlocked [OF u])
next
  assume a: "\<not> sync_lock s \<and> top_block_number q (s\<lparr>sync_lock := True\<rparr>) src = Inl e"
  then have u: "\<not> sync_lock s" by simp
  show "sync_scroll_from n q src dst s = Some (Inl e, s)"
    using a by (simp add: unlock_unlocked [OF u])
qed

theorem coupling_single_flight_witness:
  "sync_lock (init_window\<lparr>sync_lock := True\<rparr>)
   \<and> sync_scroll_from 0 raising_views Editable Original (init_window\<lparr>sync_lock := True\<rparr>)
       = Some (Inr (), init_window\<lparr>sync_lock := True\<rparr>)
   \<and> set_value 1 raising_views Editable 7 (init_window\<lparr>sync_lock := True\<rparr>)
       = Some (move_bar Editable 7 (init_window\<lparr>sync_lock := True\<rparr>))
   \<and> \<not> sync_lock init_window
   \<and> find_block raising_views (init_window\<lparr>sync_lock := True\<rparr>) Original 3
   \<and> clamped_value raising_views (init_window\<lparr>sync_lock := True\<rparr>) Original 3 Center = Inl BaseException
   \<and> top_block_number raising_views (init_window\<lparr>sync_lock := True\<rparr>) Editable = Inl Exception
   \<and> scroll_both_to_line 0 raising_views 3 init_window = Some (Inl BaseException, init_window)
   \<and> sync_scroll_from 0 raising_views Editable Original init_window = Some (Inl Exception, init_window)"
proof -
  have h: "sync_lock (init_window\<lparr>sync_lock := True\<rparr>)" by simp
  have u: "\<not> sync_lock init_window" by (simp add: init_window_def)
  have f: "find_block raising_views (init_window\<lparr>sync_lock := True\<rparr>) Original 3"
    by (simp add: raising_views_def)
  have c: "clamped_value raising_views (init_window\<lparr>sync_lock := True\<rparr>) Original 3 Center = Inl BaseException"
    by (simp add: raising_views_def)
  have t: "top_block_number raising_views (init_window\<lparr>sync_lock := True\<rparr>) Editable = Inl Exception"
    by (simp add: raising_views_def)
  show ?thesis
    using coupling_single_flight [of "init_window\<lparr>sync_lock := True\<rparr>" 0 raising_views 3
        Editable Original Editable 7 init_window Exception] h u f c t
    by simp
qed

section \<open>Highlight updates\<close>

lemma apply_line_highlight_frame [simp]:
  "lrc_index (apply_line_highlight q ed l s) = lrc_index s"
  "current_line_no (apply_line_highlight q ed l s) = current_line_no s"
  "sync_lock (apply_line_highlight q ed l s) = sync_lock s"
  by (simp_all add: apply_line_highlight_def)

lemma update_same_line:
  "resolve_line (lrc_index s) t = Some (current_line_no s) \<Longrightarrow>
     update_lrc_highlight n q t s = Some (Inr (), s)"
  by (simp add: update_lrc_highlight_def)

lemma update_result:
  assumes "update_lrc_highlight n q t s = Some (r, s')"
  shows "lrc_index s' = lrc_index s"
    and "resolve_line (lrc_index s) t = Some l \<Longrightarrow> current_line_no s' = l"
    and "resolve_line (lrc_index s) t = None \<Longrightarrow> s' = s"
proof -
  have "lrc_index s' = lrc_index s \<and>
        (\<forall>l. resolve_line (lrc_index s) t = Some l \<longrightarrow> current_line_no s' = l) \<and>
        (resolve_line (lrc_index s) t = None \<longrightarrow> s' = s)"
  proof (cases "resolve_line (lrc_index s) t")
    case None
    then show ?thesis using assms by (simp add: update_lrc_highlight_def)
  next
    case (Some l)
    show ?thesis
    proof (cases "l = current_line_no s")
      case True
      then show ?thesis using assms Some by (simp add: update_lrc_highlight_def)
    next
      case False
      from assms Some False obtain r1 s1 where
        1: "scroll_both_to_line n q l (s\<lparr>current_line_no := l\<rparr>) = Some (r1, s1)"
        by (auto simp: update_lrc_highlight_def split: option.splits)
      from scroll_both_result [OF 1] obtain v w where
        s1: "s1 = move_bar Editable w (move_bar Original v (s\<lparr>current_line_no := l\<rparr>))"
        by blast
      have "s' = s1 \<or> s' = apply_line_highlight q Original l (apply_line_highlight q Editable l s1)"
        using assms Some False 1 by (cases r1) (auto simp: update_lrc_highlight_def)
      then show ?thesis using Some by (auto simp: s1)
    qed
  qed
  then show "lrc_index s' = lrc_index s"
    and "resolve_line (lrc_index s) t = Some l \<Longrightarrow> current_line_no s' = l"
    and "resolve_line (lrc_index s) t = None \<Longrightarrow> s' = s"
    by simp_all
qed

text \<open>
  C8. A time update that resolves the line already held in \<open>current_line_no\<close> does
  nothing: no effect on either view, no change of state. Hence of two consecutive updates
  that resolve the same line the second emits nothing, and \<open>current_line_no\<close> changes only
  to a newly resolved line that differs from it.
\<close>

theorem highlight_deduplicated:
  "(resolve_line (lrc_index s) t = Some (current_line_no s) \<longrightarrow>
      update_lrc_highlight n q t s = Some (Inr (), s))
   \<and> (resolve_line (lrc_index s) t1 = Some l \<and> resolve_line (lrc_index s) t2 = Some l \<and>
       update_lrc_highlight n q t1 s = Some (r, s1) \<longrightarrow>
      update_lrc_highlight m q t2 s1 = Some (Inr (), s1))
   \<and> (update_lrc_highlight n q t s = Some (r, s') \<and> current_line_no s' \<noteq> current_line_no s \<longrightarrow>
      resolve_line (lrc_index s) t = Some (current_line_no s'))"
proof (intro conjI impI)
  assume "resolve_line (lrc_index s) t = Some (current_line_no s)"
  then show "update_lrc_highlight n q t s = Some (Inr (), s)" by (rule update_same_line)
next
  assume a: "resolve_line (lrc_index s) t1 = Some l \<and> resolve_line (lrc_index s) t2 = Some l \<and>
       update_lrc_highlight n q t1 s = Some (r, s1)"
  then have "lrc_index s1 = lrc_index s" "current_line_no s1 = l"
    using update_result(1,2) by blast+
  then have "resolve_line (lrc_index s1) t2 = Some (current_line_no s1)" using a by simp
  then show "update_lrc_highlight m q t2 s1 = Some (Inr (), s1)" by (rule update_same_line)
next
  assume a: "update_lrc_highlight n q t s = Some (r, s') \<and> current_line_no s' \<noteq> current_line_no s"
  show "resolve_line (lrc_index s) t = Some (current_line_no s')"
  proof (cases "resolve_line (lrc_index s) t")
    case None
    then have "s' = s" using a update_result(3) by blast
    then show ?thesis using a by simp
  next
    case (Some l)
    then have "current_line_no s' = l" using a update_result(2) by blast
    then show ?thesis using Some by simp
  qed
qed

theorem highlight_deduplicated_witness:
  "resolve_line (lrc_index \<lparr>editor_text = ''[00:01.500]Hello\<newline>[00:03.000]World'',
        lrc_index = [(3 / 2, 0), (3, 1)], current_line_no = - 1, sync_lock = False,
        scroll_value = (\<lambda>_. 0), effects = []\<rparr>) 2 = Some 0
   \<and> update_lrc_highlight 1 example_views 2
       \<lparr>editor_text = ''[00:01.500]Hello\<newline>[00:03.000]World'',
        lrc_index = [(3 / 2, 0), (3, 1)], current_line_no = - 1, sync_lock = False,
        scroll_value = (\<lambda>_. 0), effects = []\<rparr>
     = Some (Inr (), \<lparr>editor_text = ''[00:01.500]Hello\<newline>[00:03.000]World'',
        lrc_index = [(3 / 2, 0), (3, 1)], current_line_no = 0, sync_lock = False,
        scroll_value = (\<lambda>_. 0), effects = [Highlighted Editable 0, Highlighted Original 0]\<rparr>)
   \<and> update_lrc_highlight 1 example_views (5 / 2)
       \<lparr>editor_text = ''[00:01.500]Hello\<newline>[00:03.000]World'',
        lrc_index = [(3 / 2, 0), (3, 1)], current_line_no = 0, sync_lock = False,
        scroll_value = (\<lambda>_. 0), effects = [Highlighted Editable 0, Highlighted Original 0]\<rparr>
     = Some (Inr (), \<lparr>editor_text = ''[00:01.500]Hello\<newline>[00:03.000]World'',
        lrc_index = [(3 / 2, 0), (3, 1)], current_line_no = 0, sync_lock = False,
        scroll_value = (\<lambda>_. 0), effects = [Highlighted Editable 0, Highlighted Original 0]\<rparr>)"
proof -
  let ?s0 = "\<lparr>editor_text = ''[00:01.500]Hello\<newline>[00:03.000]World'',
        lrc_index = [(3 / 2, 0), (3, 1)], current_line_no = - 1, sync_lock = False,
        scroll_value = (\<lambda>_. 0), effects = []\<rparr>"
  let ?s1 = "\<lparr>editor_text = ''[00:01.500]Hello\<newline>[00:03.000]World'',
        lrc_index = [(3 / 2, 0), (3, 1)], current_line_no = 0, sync_lock = False,
        scroll_value = (\<lambda>_. 0), effects = [Highlighted Editable 0, Highlighted Original 0]\<rparr>"
  have r1: "resolve_line (lrc_index ?s0) 2 = Some 0" by (simp add: resolve_line_def)
  have r2: "resolve_line (lrc_index ?s0) (5 / 2) = Some 0" by (simp add: resolve_line_def)
  have u: "update_lrc_highlight 1 example_views 2 ?s0 = Some (Inr (), ?s1)"
    by (simp add: update_lrc_highlight_def resolve_line_def scroll_both_to_line_def
        example_views_def apply_line_highlight_def)
  have c: "current_line_no ?s1 \<noteq> current_line_no ?s0" by simp
  have "update_lrc_highlight 1 example_views (5 / 2) ?s1 = Some (Inr (), ?s1)"
    using highlight_deduplicated [of ?s0 2 1 example_views 2 0 "5 / 2" "Inr ()" ?s1 1 ?s1] r1 r2 u
    by blast
  then show ?thesis using r1 u by simp
qed

lemma load_audio_line [simp]: "current_line_no (load_audio lrc s) = current_line_no s"
  by (cases lrc) (simp_all add: load_audio_def set_plain_text_def)



end
